theory Spec2Isabelle
  imports Main "HOL-Library.Sublist"
begin

section \<open>Text normalisation\<close>

text \<open>
  Python strings are sequences of code points. They are modelled as HOL strings whose
  characters stand for the code points 0 to 255; \<open>str.lower\<close>, \<open>str.isspace\<close>,
  \<open>str.strip\<close> and the regular-expression class \<open>\s\<close> are written out for that range
  (upper-case letters are 65..90 and 192..222 without 215; white space is 9..13, 28..32,
  133 and 160).
\<close>

definition py_lower :: "char \<Rightarrow> char" where
  "py_lower c =
     (let n = (of_char c :: nat)
      in if (65 \<le> n \<and> n \<le> 90) \<or> (192 \<le> n \<and> n \<le> 222 \<and> n \<noteq> 215)
         then char_of (n + 32) else c)"

definition py_isspace :: "char \<Rightarrow> bool" where
  "py_isspace c =
     (let n = (of_char c :: nat)
      in (9 \<le> n \<and> n \<le> 13) \<or> (28 \<le> n \<and> n \<le> 32) \<or> n = 133 \<or> n = 160)"

text \<open>\<open>text.replace("&", "and")\<close>\<close>

definition replace_amp :: "string \<Rightarrow> string" where
  "replace_amp s = concat (map (\<lambda>c. if c = CHR ''&'' then ''and'' else [c]) s)"

text \<open>\<open>re.sub(r"[./\-]", "", text)\<close>\<close>

definition strip_punct :: "string \<Rightarrow> string" where
  "strip_punct s = filter (\<lambda>c. c \<noteq> CHR ''.'' \<and> c \<noteq> CHR ''/'' \<and> c \<noteq> CHR ''-'') s"

text \<open>
  \<open>re.sub(r"\s+", " ", text)\<close>: scanning from the left, every maximal run of white space
  is replaced by one space.
\<close>

function collapse_ws :: "string \<Rightarrow> string" where
  "collapse_ws [] = []"
| "collapse_ws (c # cs) =
     (if py_isspace c then CHR '' '' # collapse_ws (dropWhile py_isspace cs)
      else c # collapse_ws cs)"
  by pat_completeness auto
termination
  by (relation "measure length") (auto simp: length_dropWhile_le less_Suc_eq_le)

text \<open>\<open>text.strip()\<close>\<close>

definition py_strip :: "string \<Rightarrow> string" where
  "py_strip s = rev (dropWhile py_isspace (rev (dropWhile py_isspace s)))"

definition normalize :: "string \<Rightarrow> string" where
  "normalize text =
     (if text = [] then []
      else py_strip (collapse_ws (strip_punct (replace_amp (map py_lower text)))))"

text \<open>
  \<open>re.sub(r"\s*-\s*live.*$", "", name)\<close>. \<open>line_end\<close> is the tail \<open>.*$\<close> of the pattern: the
  dot takes every character up to the first line feed, and \<open>$\<close> holds at the end of the
  string or before a line feed that ends it; the result is what the match leaves over.
  \<open>match_live\<close> tries the whole pattern at the start of a string: both \<open>\s*\<close> must take a
  whole run of white space, since the character after each is not white space.
  \<open>re_sub_live\<close> deletes the matches, searching from the left and going on behind each.
\<close>

definition line_end :: "string \<Rightarrow> string option" where
  "line_end s =
     (let r = dropWhile (\<lambda>c. c \<noteq> CHR 0x0A) s
      in if r = [] \<or> r = [CHR 0x0A] then Some r else None)"

definition match_live :: "string \<Rightarrow> string option" where
  "match_live s =
     (case dropWhile py_isspace s of
        [] \<Rightarrow> None
      | c # s2 \<Rightarrow>
          if c = CHR ''-'' then
            (let s3 = dropWhile py_isspace s2
             in if take 4 s3 = ''live'' then line_end (drop 4 s3) else None)
          else None)"

function re_sub_live :: "string \<Rightarrow> string" where
  "re_sub_live [] = []"
| "re_sub_live (c # cs) =
     (case match_live (c # cs) of
        Some rest \<Rightarrow> re_sub_live rest
      | None \<Rightarrow> c # re_sub_live cs)"
  by pat_completeness auto
termination
proof (relation "measure length")
  show "wf (measure length)" by simp
next
  fix c :: char and cs rest :: string
  assume m: "match_live (c # cs) = Some rest"
  have line: "length r \<le> length s" if "line_end s = Some r" for s r
    using that length_dropWhile_le [of "\<lambda>c. c \<noteq> CHR 0x0A" s]
    unfolding line_end_def Let_def by (simp split: if_splits)
  show "(rest, c # cs) \<in> measure length"
  proof (cases "dropWhile py_isspace (c # cs)")
    case Nil
    with m show ?thesis by (simp add: match_live_def)
  next
    case (Cons d s2)
    with m have r: "line_end (drop 4 (dropWhile py_isspace s2)) = Some rest"
      by (simp add: match_live_def Let_def split: if_splits)
    have "length rest \<le> length (drop 4 (dropWhile py_isspace s2))"
      using r by (rule line)
    also have "\<dots> \<le> length s2"
      using length_dropWhile_le [of py_isspace s2] by simp
    also have "\<dots> < length (dropWhile py_isspace (c # cs))"
      unfolding Cons by simp
    also have "\<dots> \<le> length (c # cs)"
      by (rule length_dropWhile_le)
    finally show ?thesis by simp
  qed
next
  fix c :: char and cs :: string
  show "(cs, c # cs) \<in> measure length" by simp
qed

definition normalize_track_for_matching :: "string \<Rightarrow> string" where
  "normalize_track_for_matching name = re_sub_live (normalize name)"

section \<open>Entries and catalogue candidates\<close>

text \<open>
  An entry is the dictionary the parser builds from one line: the key \<open>track\<close> is always
  there (a line without it is skipped), \<open>artist\<close> and \<open>album\<close> may be absent. A candidate
  is one item of a search response, with the fields the program reads:
  \<open>track["uri"]\<close>, \<open>track["name"]\<close>, the names of \<open>track["artists"]\<close> and
  \<open>track["album"]["name"]\<close>.
\<close>

record entry =
  track :: string
  artist :: "string option"
  album :: "string option"

record candidate =
  uri :: string
  name :: string
  artists :: "string list"
  album_name :: string

text \<open>\<open>entry.get(key, "")\<close>\<close>

definition get_or_empty :: "string option \<Rightarrow> string" where
  "get_or_empty v = (case v of None \<Rightarrow> [] | Some s \<Rightarrow> s)"

definition is_exact_track_artist_match :: "entry \<Rightarrow> candidate \<Rightarrow> bool" where
  "is_exact_track_artist_match e t =
     (let entry_track = normalize_track_for_matching (track e);
          track_name = normalize_track_for_matching (name t)
      in if entry_track \<noteq> track_name then False
         else (let entry_artist = normalize (get_or_empty (artist e));
                   track_artists = map normalize (artists t)
               in entry_artist \<noteq> [] \<and> entry_artist \<in> set track_artists))"

definition clean_album_name :: "string \<Rightarrow> string \<Rightarrow> string" where
  "clean_album_name alb art =
     (if alb = [] \<or> art = [] then alb
      else (let album_norm = normalize alb;
                artist_norm = normalize art;
                pre = artist_norm @ '' - ''
            in if prefix pre album_norm then py_strip (drop (length pre) alb) else alb))"

section \<open>Scoring\<close>

text \<open>
  \<open>similarity\<close> calls \<open>difflib.SequenceMatcher\<close> and returns a float; the scorer uses it
  only as \<open>int(similarity(a, b) * 30)\<close>. That integer is a parameter of the model.
\<close>

type_synonym sim30 = "string \<Rightarrow> string \<Rightarrow> int"

text \<open>The block "Track name (strongest signal)".\<close>

definition track_term :: "sim30 \<Rightarrow> entry \<Rightarrow> candidate \<Rightarrow> int" where
  "track_term sim e t =
     (let entry_track = normalize_track_for_matching (track e);
          track_name = normalize_track_for_matching (name t)
      in if track_name = entry_track then 40 else sim track_name entry_track)"

text \<open>The block "Small bias if Spotify track has 'live' but entry does not".\<close>

definition live_bias :: "entry \<Rightarrow> candidate \<Rightarrow> int" where
  "live_bias e t =
     (if sublist ''live'' (normalize (name t)) \<and> \<not> sublist ''live'' (normalize (track e))
      then 5 else 0)"

text \<open>
  The block "Artist match". The loop over \<open>track_artists\<close> returns what it added to the
  score and the flag \<open>artist_matched\<close>; both branches that add leave the loop.
\<close>

fun artist_loop :: "string \<Rightarrow> string list \<Rightarrow> int \<times> bool" where
  "artist_loop entry_artist [] = (0, False)"
| "artist_loop entry_artist (a # as) =
     (if entry_artist = a then (40, True)
      else if sublist entry_artist a \<or> sublist a entry_artist then (25, True)
      else artist_loop entry_artist as)"

definition artist_term :: "entry \<Rightarrow> candidate \<Rightarrow> int" where
  "artist_term e t =
     (let entry_artist = normalize (get_or_empty (artist e));
          track_artists = map normalize (artists t)
      in if entry_artist \<noteq> [] then
           (case artist_loop entry_artist track_artists of
              (d, artist_matched) \<Rightarrow>
                if \<not> artist_matched \<and> entry_artist \<noteq> [] then d - 10 else d)
         else 0)"

text \<open>The block "Album match (optional but useful)".\<close>

definition album_term :: "entry \<Rightarrow> candidate \<Rightarrow> int" where
  "album_term e t =
     (let entry_album =
            normalize (clean_album_name (get_or_empty (album e)) (get_or_empty (artist e)));
          cand_album = normalize (album_name t)
      in if entry_album \<noteq> [] \<and> sublist entry_album cand_album then 20 else 0)"

text \<open>The block "Live album compatibility".\<close>

definition live_album_term :: "entry \<Rightarrow> candidate \<Rightarrow> int" where
  "live_album_term e t =
     (if sublist ''live'' (normalize (get_or_empty (album e)))
         \<and> sublist ''live'' (normalize (album_name t))
      then 10 else 0)"

definition score_candidate :: "sim30 \<Rightarrow> entry \<Rightarrow> candidate \<Rightarrow> int" where
  "score_candidate sim e t =
     track_term sim e t + live_bias e t + artist_term e t + album_term e t
       + live_album_term e t"

section \<open>Searching with fallback queries\<close>

text \<open>
  The run is observed through a log, in order, of the calls to the catalogue service and
  of the candidates that were scored. Printing is not modelled.
\<close>

datatype event =
    Search string
  | Score candidate
  | CurrentUser
  | FindPlaylist string string
  | CreatePlaylist string string
  | PlaylistItems string
  | RemoveItems string "string list"
  | AddItems string "string list"

definition logged :: "event \<Rightarrow> 'a \<times> event list \<Rightarrow> 'a \<times> event list" where
  "logged ev r = (fst r, ev # snd r)"

definition quoted :: "string \<Rightarrow> string" where
  "quoted s = CHR 0x22 # s @ [CHR 0x22]"

text \<open>The list \<open>search_queries\<close>; \<open>entry.get(key)\<close> is true for a present, non-empty value.\<close>

definition search_queries :: "entry \<Rightarrow> string list" where
  "search_queries e =
     (if get_or_empty (artist e) \<noteq> []
      then [''track:'' @ quoted (track e) @ '' artist:'' @ quoted (get_or_empty (artist e))]
      else [])
     @ [''track:'' @ quoted (track e)]
     @ (if get_or_empty (album e) \<noteq> []
        then [''track:'' @ quoted (track e) @ '' album:'' @ quoted (get_or_empty (album e))]
        else [])
     @ (if get_or_empty (artist e) \<noteq> []
        then [''artist:'' @ quoted (get_or_empty (artist e))]
        else [])"

text \<open>
  The loop over the candidates of one response: \<open>Inl\<close> is the immediate return of a URI,
  \<open>Inr\<close> the values of \<open>best_track\<close> and \<open>best_score\<close> when the loop runs to its end.
\<close>

fun candidate_loop ::
  "sim30 \<Rightarrow> entry \<Rightarrow> candidate list \<Rightarrow> candidate option \<Rightarrow> int
     \<Rightarrow> (string + candidate option \<times> int) \<times> event list" where
  "candidate_loop sim e [] best_track best_score = (Inr (best_track, best_score), [])"
| "candidate_loop sim e (t # ts) best_track best_score =
     (if score_candidate sim e t \<ge> 85 then (Inl (uri t), [Score t])
      else if score_candidate sim e t > best_score
        then logged (Score t) (candidate_loop sim e ts (Some t) (score_candidate sim e t))
        else logged (Score t) (candidate_loop sim e ts best_track best_score))"

text \<open>What follows the loop over the candidates: \<open>if best_track: ...\<close> and \<open>return None\<close>.\<close>

definition after_candidates :: "entry \<Rightarrow> candidate option \<Rightarrow> int \<Rightarrow> string option" where
  "after_candidates e best_track best_score =
     (case best_track of
        None \<Rightarrow> None
      | Some b \<Rightarrow>
          if best_score \<ge> 55 then Some (uri b)
          else if is_exact_track_artist_match e b \<and> best_score \<ge> 50 then Some (uri b)
          else None)"

text \<open>
  The loop over the queries. The answer of the catalogue to a query is a function of the
  query string; the response is the list \<open>response["tracks"]["items"]\<close>.
\<close>

fun query_loop ::
  "(string \<Rightarrow> candidate list) \<Rightarrow> sim30 \<Rightarrow> entry \<Rightarrow> string list \<Rightarrow> candidate option \<Rightarrow> int
     \<Rightarrow> string option \<times> event list" where
  "query_loop srch sim e [] best_track best_score = (None, [])"
| "query_loop srch sim e (q # qs) best_track best_score =
     logged (Search q)
       (if srch q = [] then query_loop srch sim e qs best_track best_score
        else (case candidate_loop sim e (srch q) best_track best_score of
                (Inl u, evs) \<Rightarrow> (Some u, evs)
              | (Inr (bt, bs), evs) \<Rightarrow> (after_candidates e bt bs, evs)))"

definition search_track_with_scoring ::
  "(string \<Rightarrow> candidate list) \<Rightarrow> sim30 \<Rightarrow> entry \<Rightarrow> string option \<times> event list" where
  "search_track_with_scoring srch sim e = query_loop srch sim e (search_queries e) None 0"

section \<open>Synchronising the playlist\<close>

datatype py_error = KeyError | ValueError

datatype outcome = Done | SysExit int | Raised py_error

text \<open>
  \<open>chunked\<close>: the slices \<open>items[i:i + size]\<close> for \<open>i\<close> in \<open>range(0, len(items), size)\<close>;
  a step of zero makes \<open>range\<close> raise.
\<close>

definition chunked :: "'a list \<Rightarrow> nat \<Rightarrow> py_error + 'a list list" where
  "chunked items sz =
     (if sz = 0 then Inl ValueError
      else Inr (map (\<lambda>k. take sz (drop (k * sz) items))
                  [0 ..< (length items + sz - 1) div sz]))"

definition ADD_BATCH_SIZE :: nat where
  "ADD_BATCH_SIZE = 100"

definition REMOVE_BATCH_SIZE :: nat where
  "REMOVE_BATCH_SIZE = 100"

text \<open>
  The service apart from the search: the user's id, the id of the playlist that
  \<open>find_playlist_by_name\<close> finds, the id of a playlist it creates, and the URIs that
  \<open>get_all_playlist_track_uris\<close> collects, as the list \<open>existing_uris_list\<close>.
\<close>

record backend =
  b_search :: "string \<Rightarrow> candidate list"
  b_user_id :: string
  b_find_playlist :: "string \<Rightarrow> string \<Rightarrow> string option"
  b_create_playlist :: "string \<Rightarrow> string \<Rightarrow> string"
  b_playlist_track_uris :: "string \<Rightarrow> string list"

text \<open>
  The validation loop of \<open>main\<close>. A URI counts as found when it is not empty; the line
  printed for a found entry reads \<open>entry['artist']\<close> and raises when the key is absent.
\<close>

fun validate ::
  "backend \<Rightarrow> sim30 \<Rightarrow> entry list \<Rightarrow> string list \<Rightarrow> (py_error + string list) \<times> event list"
  where
  "validate be sim [] found_uris = (Inr found_uris, [])"
| "validate be sim (e # es) found_uris =
     (case search_track_with_scoring (b_search be) sim e of
        (r, evs) \<Rightarrow>
          if r \<noteq> None \<and> r \<noteq> Some [] then
            (if artist e = None then (Inl KeyError, evs)
             else (case validate be sim es (found_uris @ [the r]) of
                     (res, evs') \<Rightarrow> (res, evs @ evs')))
          else (case validate be sim es found_uris of
                  (res, evs') \<Rightarrow> (res, evs @ evs')))"

text \<open>
  The end of \<open>main\<close>, from "if args.overwrite and existing_uris_list" on: the batches
  removed when overwriting a playlist that has items, then the batches of \<open>uris_to_add\<close>.
\<close>

definition uris_to_add :: "bool \<Rightarrow> string list \<Rightarrow> string list \<Rightarrow> string list" where
  "uris_to_add overwrite found_uris existing_uris_list =
     (if overwrite then found_uris
      else filter (\<lambda>u. u \<notin> set existing_uris_list) found_uris)"

definition reconcile ::
  "string \<Rightarrow> bool \<Rightarrow> string list \<Rightarrow> string list \<Rightarrow> outcome \<times> event list" where
  "reconcile playlist_id overwrite found_uris existing_uris_list =
     (case (if overwrite \<and> existing_uris_list \<noteq> []
            then chunked existing_uris_list REMOVE_BATCH_SIZE else Inr []) of
        Inl err \<Rightarrow> (Raised err, [])
      | Inr rs \<Rightarrow>
          (case chunked (uris_to_add overwrite found_uris existing_uris_list) ADD_BATCH_SIZE of
             Inl err \<Rightarrow> (Raised err, map (RemoveItems playlist_id) rs)
           | Inr as \<Rightarrow>
               (Done, map (RemoveItems playlist_id) rs @ map (AddItems playlist_id) as)))"

definition main ::
  "backend \<Rightarrow> sim30 \<Rightarrow> bool \<Rightarrow> string \<Rightarrow> entry list \<Rightarrow> outcome \<times> event list" where
  "main be sim overwrite playlist_name entries =
     (case validate be sim entries [] of
        (Inl err, evs) \<Rightarrow> (Raised err, evs)
      | (Inr found_uris, evs) \<Rightarrow>
          if found_uris = [] then (SysExit 1, evs)
          else
            (let user = b_user_id be;
                 playlist = b_find_playlist be user playlist_name;
                 playlist_id =
                   (case playlist of
                      None \<Rightarrow> b_create_playlist be user playlist_name
                    | Some p \<Rightarrow> p);
                 evs1 = [CurrentUser, FindPlaylist user playlist_name]
                   @ (if playlist = None then [CreatePlaylist user playlist_name] else [])
                   @ [PlaylistItems playlist_id];
                 existing_uris_list = b_playlist_track_uris be playlist_id
             in (case reconcile playlist_id overwrite found_uris existing_uris_list of
                   (out, evs2) \<Rightarrow> (out, evs @ evs1 @ evs2))))"

text \<open>The URIs a log removes from, and adds to, the playlist, over all batches in order.\<close>

definition removed_uris :: "event list \<Rightarrow> string list" where
  "removed_uris evs = concat (map (\<lambda>ev. case ev of RemoveItems p b \<Rightarrow> b | _ \<Rightarrow> []) evs)"

definition added_uris :: "event list \<Rightarrow> string list" where
  "added_uris evs = concat (map (\<lambda>ev. case ev of AddItems p b \<Rightarrow> b | _ \<Rightarrow> []) evs)"

text \<open>The events that change the service: creating a playlist, removing and adding items.\<close>

fun is_mutation :: "event \<Rightarrow> bool" where
  "is_mutation (CreatePlaylist u n) = True"
| "is_mutation (RemoveItems p b) = True"
| "is_mutation (AddItems p b) = True"
| "is_mutation _ = False"

text \<open>The events of resolving entries: searches and scorings.\<close>

fun is_lookup :: "event \<Rightarrow> bool" where
  "is_lookup (Search q) = True"
| "is_lookup (Score t) = True"
| "is_lookup _ = False"

section \<open>Predicates used in the proofs\<close>

text \<open>
  A string is collapsed when each white-space character in it is a single space that no
  white-space character follows; a character is stable when the steps of \<open>normalize\<close>
  before the white-space handling leave it alone.
\<close>

fun ws_collapsed :: "string \<Rightarrow> bool" where
  "ws_collapsed [] = True"
| "ws_collapsed [c] = (py_isspace c \<longrightarrow> c = CHR '' '')"
| "ws_collapsed (c # d # cs) =
     ((py_isspace c \<longrightarrow> c = CHR '' '' \<and> \<not> py_isspace d) \<and> ws_collapsed (d # cs))"

definition stable_char :: "char \<Rightarrow> bool" where
  "stable_char c =
     (py_lower c = c \<and> c \<noteq> CHR ''&'' \<and> c \<noteq> CHR ''.'' \<and> c \<noteq> CHR ''/'' \<and> c \<noteq> CHR ''-'')"

section \<open>Reference definitions\<close>

text \<open>
  Two artist names are related when they are equal or one contains the other; this is the
  test under which the artist loop stops.
\<close>

definition artist_related :: "string \<Rightarrow> string \<Rightarrow> bool" where
  "artist_related entry_artist a = (entry_artist = a \<or> sublist entry_artist a \<or> sublist a entry_artist)"

text \<open>
  The selection as the specification words it. \<open>best_candidate\<close> is the candidate with the
  greatest score, the earliest one among equals; \<open>select_spec\<close> takes the first candidate
  that scores 85 or more, and otherwise decides on the best one by the thresholds 55 and
  50; \<open>examined_spec\<close> is the part of the response up to and including the first
  candidate that scores 85 or more. \<open>scored_candidates\<close> and \<open>searched_queries\<close> read a log.
\<close>

fun best_candidate :: "(candidate \<Rightarrow> int) \<Rightarrow> candidate list \<Rightarrow> candidate option" where
  "best_candidate f [] = None"
| "best_candidate f (c # cs) =
     (case best_candidate f cs of
        None \<Rightarrow> Some c
      | Some b \<Rightarrow> if f c < f b then Some b else Some c)"

definition select_spec :: "sim30 \<Rightarrow> entry \<Rightarrow> candidate list \<Rightarrow> string option" where
  "select_spec sim e cs =
     (case find (\<lambda>c. 85 \<le> score_candidate sim e c) cs of
        Some c \<Rightarrow> Some (uri c)
      | None \<Rightarrow>
          (case best_candidate (score_candidate sim e) cs of
             None \<Rightarrow> None
           | Some b \<Rightarrow>
               if 55 \<le> score_candidate sim e b then Some (uri b)
               else if is_exact_track_artist_match e b \<and> 50 \<le> score_candidate sim e b
                 then Some (uri b)
               else None))"

definition examined_spec :: "sim30 \<Rightarrow> entry \<Rightarrow> candidate list \<Rightarrow> candidate list" where
  "examined_spec sim e cs =
     takeWhile (\<lambda>c. score_candidate sim e c < 85) cs
       @ take 1 (dropWhile (\<lambda>c. score_candidate sim e c < 85) cs)"

definition scored_candidates :: "event list \<Rightarrow> candidate list" where
  "scored_candidates evs = concat (map (\<lambda>ev. case ev of Score t \<Rightarrow> [t] | _ \<Rightarrow> []) evs)"

definition searched_queries :: "event list \<Rightarrow> string list" where
  "searched_queries evs = concat (map (\<lambda>ev. case ev of Search q \<Rightarrow> [q] | _ \<Rightarrow> []) evs)"

section \<open>Example inputs\<close>

text \<open>
  Concrete entries, candidates and services at which the theorems are evaluated.
  \<open>sim_zero\<close> is the similarity term of two strings without a common block.
\<close>

definition sim_zero :: sim30 where
  "sim_zero a b = 0"

definition e_janet :: entry where
  "e_janet = \<lparr>track = ''Dammit Janet'', artist = Some ''Barry Bostwick'', album = None\<rparr>"

definition t_janet :: candidate where
  "t_janet = \<lparr>uri = ''spotify:track:1'', name = ''Dammit Janet'',
     artists = [''Barry Bostwick''], album_name = ''Rocky Horror''\<rparr>"

definition t_other :: candidate where
  "t_other = \<lparr>uri = ''spotify:track:2'', name = ''Zzz'', artists = [''Qq''],
     album_name = ''Xx''\<rparr>"

definition e_genesis :: entry where
  "e_genesis = \<lparr>track = ''In the Cage'', artist = Some ''Genesis'', album = None\<rparr>"

definition t_two_artists :: candidate where
  "t_two_artists = \<lparr>uri = ''spotify:track:3'', name = ''In the Cage'',
     artists = [''Genesis Revisited'', ''Genesis''], album_name = ''Seconds Out''\<rparr>"

definition t_artists_swapped :: candidate where
  "t_artists_swapped = \<lparr>uri = ''spotify:track:3'', name = ''In the Cage'',
     artists = [''Genesis'', ''Genesis Revisited''], album_name = ''Seconds Out''\<rparr>"

definition srch_nothing :: "string \<Rightarrow> candidate list" where
  "srch_nothing q = []"

definition srch_poor_first :: "string \<Rightarrow> candidate list" where
  "srch_poor_first q = (if q = hd (search_queries e_janet) then [t_other] else [t_janet])"

definition srch_second :: "string \<Rightarrow> candidate list" where
  "srch_second q =
     (if q = hd (tl (search_queries e_janet)) then [t_other, t_janet, t_janet] else [])"

definition find_none :: "string \<Rightarrow> string \<Rightarrow> string option" where
  "find_none user pl = None"

definition create_new :: "string \<Rightarrow> string \<Rightarrow> string" where
  "create_new user pl = ''playlist:1''"

definition items_none :: "string \<Rightarrow> string list" where
  "items_none pl = []"

definition be_nothing :: backend where
  "be_nothing = \<lparr>b_search = srch_nothing, b_user_id = ''me'', b_find_playlist = find_none,
     b_create_playlist = create_new, b_playlist_track_uris = items_none\<rparr>"

section \<open>Properties of the normalisation\<close>

lemma py_lower_idem: "py_lower (py_lower c) = py_lower c"
  by (simp add: py_lower_def Let_def)

lemma py_isspace_space: "py_isspace (CHR '' '')"
  by (simp add: py_isspace_def)

lemma stable_space: "stable_char (CHR '' '')"
  by (simp add: stable_char_def py_lower_def)

lemma stable_and: "stable_char (CHR ''a'')" "stable_char (CHR ''n'')" "stable_char (CHR ''d'')"
  by (simp_all add: stable_char_def py_lower_def)

lemma set_replace_amp:
  "c \<in> set (replace_amp s) \<Longrightarrow> c \<in> set ''and'' \<or> (c \<in> set s \<and> c \<noteq> CHR ''&'')"
  unfolding replace_amp_def by (induction s) (auto split: if_splits)

lemma set_strip_punct:
  "c \<in> set (strip_punct s) \<longleftrightarrow>
     c \<in> set s \<and> c \<noteq> CHR ''.'' \<and> c \<noteq> CHR ''/'' \<and> c \<noteq> CHR ''-''"
  by (simp add: strip_punct_def)

lemma stable_pre:
  assumes "c \<in> set (strip_punct (replace_amp (map py_lower s)))"
  shows "stable_char c"
proof -
  from assms have p: "c \<noteq> CHR ''.''" "c \<noteq> CHR ''/''" "c \<noteq> CHR ''-''"
    and r: "c \<in> set (replace_amp (map py_lower s))"
    by (simp_all add: set_strip_punct)
  from set_replace_amp [OF r] show ?thesis
  proof
    assume "c \<in> set ''and''"
    then show ?thesis using stable_and by auto
  next
    assume a: "c \<in> set (map py_lower s) \<and> c \<noteq> CHR ''&''"
    then obtain d where "c = py_lower d" by auto
    then have "py_lower c = c" by (simp add: py_lower_idem)
    with a p show ?thesis by (simp add: stable_char_def)
  qed
qed

lemma set_collapse_ws: "c \<in> set (collapse_ws s) \<Longrightarrow> c = CHR '' '' \<or> c \<in> set s"
proof (induction s rule: collapse_ws.induct)
  case 1
  then show ?case by simp
next
  case (2 d ds)
  show ?case
  proof (cases "py_isspace d")
    case True
    with 2 have "c = CHR '' '' \<or> c \<in> set (dropWhile py_isspace ds)"
      by auto
    then show ?thesis
      using set_dropWhileD [of c py_isspace ds] by auto
  next
    case False
    with 2 show ?thesis by auto
  qed
qed

lemma set_py_strip: "c \<in> set (py_strip s) \<Longrightarrow> c \<in> set s"
proof -
  assume "c \<in> set (py_strip s)"
  then have "c \<in> set (dropWhile py_isspace (rev (dropWhile py_isspace s)))"
    by (simp add: py_strip_def)
  then have "c \<in> set (rev (dropWhile py_isspace s))"
    by (rule set_dropWhileD)
  then have "c \<in> set (dropWhile py_isspace s)"
    by simp
  then show ?thesis
    by (rule set_dropWhileD)
qed

lemma stable_normalize: "c \<in> set (normalize s) \<Longrightarrow> stable_char c"
proof -
  assume c: "c \<in> set (normalize s)"
  then have ne: "s \<noteq> []"
    by (auto simp: normalize_def)
  with c have "c \<in> set (py_strip (collapse_ws (strip_punct (replace_amp (map py_lower s)))))"
    by (simp add: normalize_def)
  then have "c \<in> set (collapse_ws (strip_punct (replace_amp (map py_lower s))))"
    by (rule set_py_strip)
  then have "c = CHR '' '' \<or> c \<in> set (strip_punct (replace_amp (map py_lower s)))"
    by (rule set_collapse_ws)
  then show ?thesis
    using stable_space stable_pre by blast
qed

lemma stable_fix:
  "\<forall>c \<in> set s. stable_char c \<Longrightarrow> strip_punct (replace_amp (map py_lower s)) = s"
  by (induction s) (simp_all add: strip_punct_def replace_amp_def stable_char_def)

lemma ws_collapsed_Cons:
  "ws_collapsed (c # s) \<longleftrightarrow>
     (py_isspace c \<longrightarrow> c = CHR '' '' \<and> (s = [] \<or> \<not> py_isspace (hd s))) \<and> ws_collapsed s"
  by (cases s) auto

lemma dropWhile_hd_id: "s = [] \<or> \<not> P (hd s) \<Longrightarrow> dropWhile P s = s"
  by (cases s) auto

lemma collapse_ws_fix: "ws_collapsed s \<Longrightarrow> collapse_ws s = s"
proof (induction s)
  case Nil
  show ?case by simp
next
  case (Cons c s)
  from Cons.prems have w: "ws_collapsed s"
    and sp: "py_isspace c \<longrightarrow> c = CHR '' '' \<and> (s = [] \<or> \<not> py_isspace (hd s))"
    by (simp_all add: ws_collapsed_Cons del: ws_collapsed.simps)
  from w have ih: "collapse_ws s = s" by (rule Cons.IH)
  show ?case
  proof (cases "py_isspace c")
    case True
    with sp have "c = CHR '' ''" and "dropWhile py_isspace s = s"
      by (simp_all add: dropWhile_hd_id)
    with True ih show ?thesis by simp
  next
    case False
    with ih show ?thesis by simp
  qed
qed

lemma collapse_ws_hd:
  "s \<noteq> [] \<Longrightarrow> \<not> py_isspace (hd s) \<Longrightarrow> collapse_ws s \<noteq> [] \<and> hd (collapse_ws s) = hd s"
  by (cases s) simp_all

lemma dropWhile_hd: "dropWhile P s \<noteq> [] \<Longrightarrow> \<not> P (hd (dropWhile P s))"
  by (metis hd_dropWhile)

lemma ws_collapsed_collapse: "ws_collapsed (collapse_ws s)"
proof (induction s rule: collapse_ws.induct)
  case 1
  show ?case by simp
next
  case (2 c cs)
  show ?case
  proof (cases "py_isspace c")
    case True
    let ?r = "dropWhile py_isspace cs"
    have ih: "ws_collapsed (collapse_ws ?r)"
      using 2 True by simp
    have "collapse_ws ?r = [] \<or> \<not> py_isspace (hd (collapse_ws ?r))"
    proof (cases "?r = []")
      case True
      have "collapse_ws [] = []" by simp
      with True show ?thesis by (simp only: simp_thms)
    next
      case False
      then have "\<not> py_isspace (hd ?r)" by (rule dropWhile_hd)
      with False show ?thesis using collapse_ws_hd [of ?r] by simp
    qed
    with ih True show ?thesis
      by (simp add: ws_collapsed_Cons del: ws_collapsed.simps)
  next
    case False
    with 2 have ih: "ws_collapsed (collapse_ws cs)" by simp
    from False ih show ?thesis
      by (simp add: ws_collapsed_Cons del: ws_collapsed.simps)
  qed
qed

lemma ws_collapsed_suffix: "ws_collapsed (xs @ ys) \<Longrightarrow> ws_collapsed ys"
  by (induction xs) (simp_all add: ws_collapsed_Cons del: ws_collapsed.simps)

lemma ws_collapsed_prefix: "ws_collapsed (xs @ ys) \<Longrightarrow> ws_collapsed xs"
proof (induction xs)
  case Nil
  show ?case by simp
next
  case (Cons c xs)
  then show ?case
    by (cases xs) (simp_all add: ws_collapsed_Cons del: ws_collapsed.simps)
qed

lemma ws_collapsed_strip: "ws_collapsed s \<Longrightarrow> ws_collapsed (py_strip s)"
proof -
  assume w: "ws_collapsed s"
  let ?t = "dropWhile py_isspace s"
  have "s = takeWhile py_isspace s @ ?t" by simp
  with w have t: "ws_collapsed ?t" by (metis ws_collapsed_suffix)
  have "rev ?t = takeWhile py_isspace (rev ?t) @ dropWhile py_isspace (rev ?t)" by simp
  then have "?t = rev (dropWhile py_isspace (rev ?t)) @ rev (takeWhile py_isspace (rev ?t))"
    by (metis rev_append rev_rev_ident)
  with t have "ws_collapsed (rev (dropWhile py_isspace (rev ?t)))"
    by (metis ws_collapsed_prefix)
  then show ?thesis by (simp add: py_strip_def)
qed

lemma py_strip_fix:
  assumes "t = [] \<or> \<not> py_isspace (hd t)"
  shows "dropWhile py_isspace (rev (dropWhile py_isspace (rev t))) = rev (dropWhile py_isspace (rev t))"
proof (cases t)
  case Nil
  then show ?thesis by simp
next
  case (Cons x t')
  with assms have nx: "\<not> py_isspace x" by simp
  have "\<exists>w. dropWhile py_isspace (rev t' @ [x]) = w @ [x]"
    using nx by (auto simp: dropWhile_append)
  then obtain w where w: "dropWhile py_isspace (rev t) = w @ [x]"
    using Cons by auto
  show ?thesis unfolding w using nx by simp
qed

lemma py_strip_idem: "py_strip (py_strip s) = py_strip s"
proof -
  let ?t = "dropWhile py_isspace s"
  have "?t = [] \<or> \<not> py_isspace (hd ?t)"
    by (metis hd_dropWhile)
  then have "dropWhile py_isspace (py_strip s) = py_strip s"
    unfolding py_strip_def by (rule py_strip_fix)
  then show ?thesis
    by (simp add: py_strip_def)
qed

text \<open>
  Claim C8: \<open>normalize\<close> is idempotent: normalising a normalised string changes nothing.
\<close>

theorem normalize_idempotent: "normalize (normalize s) = normalize s"
proof (cases "normalize s = []")
  case True
  then show ?thesis by (simp add: normalize_def)
next
  case False
  then have ne: "s \<noteq> []" by (auto simp: normalize_def)
  let ?x = "strip_punct (replace_amp (map py_lower s))"
  have n: "normalize s = py_strip (collapse_ws ?x)"
    using ne by (simp add: normalize_def)
  have "\<forall>c \<in> set (normalize s). stable_char c"
    using stable_normalize by blast
  then have pre: "strip_punct (replace_amp (map py_lower (normalize s))) = normalize s"
    by (rule stable_fix)
  have "ws_collapsed (normalize s)"
    unfolding n by (rule ws_collapsed_strip) (rule ws_collapsed_collapse)
  then have col: "collapse_ws (normalize s) = normalize s"
    by (rule collapse_ws_fix)
  have str: "py_strip (normalize s) = normalize s"
    unfolding n by (rule py_strip_idem)
  have "normalize (normalize s) =
      py_strip (collapse_ws (strip_punct (replace_amp (map py_lower (normalize s)))))"
    using False by (simp add: normalize_def)
  also have "\<dots> = normalize s"
    by (simp only: pre col str)
  finally show ?thesis .
qed

section \<open>The track normaliser\<close>

lemma no_dash_normalize: "CHR ''-'' \<notin> set (normalize s)"
  using stable_normalize [of "CHR ''-''" s] by (auto simp: stable_char_def)

lemma match_live_no_dash: "CHR ''-'' \<notin> set s \<Longrightarrow> match_live s = None"
proof -
  assume nd: "CHR ''-'' \<notin> set s"
  show ?thesis
  proof (cases "dropWhile py_isspace s")
    case Nil
    show ?thesis unfolding match_live_def Nil by simp
  next
    case (Cons c s2)
    then have "c \<in> set (dropWhile py_isspace s)" by simp
    then have "c \<in> set s" by (rule set_dropWhileD)
    with nd have "c \<noteq> CHR ''-''" by auto
    then show ?thesis unfolding match_live_def Cons by simp
  qed
qed

lemma re_sub_live_no_dash: "CHR ''-'' \<notin> set s \<Longrightarrow> re_sub_live s = s"
proof (induction s)
  case Nil
  show ?case by simp
next
  case (Cons c s)
  from Cons.prems have "match_live (c # s) = None" by (rule match_live_no_dash)
  moreover from Cons have "re_sub_live s = s" by simp
  ultimately show ?case by simp
qed

text \<open>
  Claim C10: \<open>normalize_track_for_matching\<close> returns what \<open>normalize\<close> returns, on every
  input: \<open>normalize\<close> leaves no hyphen, so the pattern that starts with one never matches.
\<close>

theorem normalize_track_for_matching_eq_normalize:
  "normalize_track_for_matching x = normalize x"
  unfolding normalize_track_for_matching_def
  by (rule re_sub_live_no_dash) (rule no_dash_normalize)

text \<open>
  Claim C3, as the code behaves: a title followed by " - Live ..." is not mapped to what the
  title alone is mapped to; the word "live" and what follows it stay.
\<close>

theorem live_suffix_not_stripped:
  "normalize_track_for_matching ''Layla - Live at the Fillmore'' = ''layla live at the fillmore''
   \<and> normalize_track_for_matching ''Layla'' = ''layla''"
  by code_simp

section \<open>The candidate scorer\<close>

lemma artist_loop_find:
  "artist_loop ea tas =
     (case find (artist_related ea) tas of
        None \<Rightarrow> (0, False)
      | Some a \<Rightarrow> if a = ea then (40, True) else (25, True))"
  by (induction tas) (auto simp: artist_related_def)

text \<open>
  What the artist block adds to the score: the loop stops at the first artist name of the
  candidate that is related to the entry's artist, whether that name is equal or not.
\<close>

lemma artist_term_find:
  "artist_term e t =
     (if normalize (get_or_empty (artist e)) = [] then 0
      else (case find (artist_related (normalize (get_or_empty (artist e))))
                   (map normalize (artists t)) of
              None \<Rightarrow> - 10
            | Some a \<Rightarrow> if a = normalize (get_or_empty (artist e)) then 40 else 25))"
  by (simp add: artist_term_def Let_def artist_loop_find split: option.splits)

text \<open>
  Claim C5, as the code behaves: the entry's normalised artist equals one of the
  candidate's normalised artist names, and \<open>is_exact_track_artist_match\<close> says so, yet the
  artist term is 25 and not 40, because a name that only contains the entry's artist is
  listed before the equal one and ends the loop. With the two names in the other order the
  term is 40.
\<close>

theorem artist_term_order_dependent:
  "normalize (get_or_empty (artist e_genesis)) \<noteq> []
   \<and> normalize (get_or_empty (artist e_genesis)) \<in> set (map normalize (artists t_two_artists))
   \<and> is_exact_track_artist_match e_genesis t_two_artists
   \<and> artist_term e_genesis t_two_artists = 25
   \<and> set (artists t_artists_swapped) = set (artists t_two_artists)
   \<and> artist_term e_genesis t_artists_swapped = 40"
  by code_simp

lemma find_related_exact:
  "ea \<in> set tas \<Longrightarrow> \<exists>a. find (artist_related ea) tas = Some a"
  by (induction tas) (auto simp: artist_related_def)

lemma terms_nonneg: "0 \<le> live_bias e t" "0 \<le> album_term e t" "0 \<le> live_album_term e t"
  by (simp_all add: live_bias_def album_term_def live_album_term_def Let_def)

text \<open>
  The bounds that hold for every candidate with an equal normalised track name and an
  artist name equal to the entry's normalised artist.
\<close>

lemma exact_match_score_bounds:
  assumes "normalize_track_for_matching (name t) = normalize_track_for_matching (track e)"
    and "normalize (get_or_empty (artist e)) \<noteq> []"
    and "normalize (get_or_empty (artist e)) \<in> set (map normalize (artists t))"
  shows "65 \<le> score_candidate sim e t
    \<and> (find (artist_related (normalize (get_or_empty (artist e)))) (map normalize (artists t))
          = Some (normalize (get_or_empty (artist e)))
        \<longrightarrow> 80 \<le> score_candidate sim e t)"
proof -
  let ?ea = "normalize (get_or_empty (artist e))"
  let ?tas = "map normalize (artists t)"
  have tt: "track_term sim e t = 40"
    using assms(1) by (simp add: track_term_def)
  obtain a where a: "find (artist_related ?ea) ?tas = Some a"
    using find_related_exact [OF assms(3)] by blast
  have at: "artist_term e t = (if a = ?ea then 40 else 25)"
    using assms(2) a by (simp add: artist_term_def Let_def artist_loop_find)
  have s: "score_candidate sim e t =
      40 + live_bias e t + artist_term e t + album_term e t + live_album_term e t"
    by (simp add: score_candidate_def tt)
  have "65 \<le> score_candidate sim e t"
    using terms_nonneg [of e t] at unfolding s by (simp split: if_splits)
  moreover have "80 \<le> score_candidate sim e t" if "find (artist_related ?ea) ?tas = Some ?ea"
  proof -
    from that a have "a = ?ea" by simp
    with at have "artist_term e t = 40" by simp
    then show ?thesis
      using terms_nonneg [of e t] unfolding s by simp
  qed
  ultimately show ?thesis by blast
qed

text \<open>
  Claim C2, as the code behaves: the normalised track names are equal and the entry's
  normalised artist equals one of the candidate's normalised artist names, so that
  \<open>is_exact_track_artist_match\<close> holds, yet the score is 65 and not 80 or more: the artist
  loop stops at the containing name listed first. With the two names in the other order
  the score is 80.
\<close>

theorem exact_match_score_order_dependent:
  "normalize_track_for_matching (name t_two_artists)
     = normalize_track_for_matching (track e_genesis)
   \<and> get_or_empty (artist e_genesis) \<noteq> []
   \<and> normalize (get_or_empty (artist e_genesis)) \<in> set (map normalize (artists t_two_artists))
   \<and> is_exact_track_artist_match e_genesis t_two_artists
   \<and> score_candidate sim_zero e_genesis t_two_artists = 65
   \<and> score_candidate sim_zero e_genesis t_artists_swapped = 80"
  by code_simp

section \<open>The match selector\<close>

lemma best_candidate_Some: "cs \<noteq> [] \<Longrightarrow> \<exists>b. best_candidate f cs = Some b"
  by (cases cs) (auto split: option.splits)

lemma best_candidate_max:
  "best_candidate f cs = Some b \<Longrightarrow> b \<in> set cs \<and> (\<forall>c \<in> set cs. f c \<le> f b)"
proof (induction cs arbitrary: b)
  case Nil
  then show ?case by simp
next
  case (Cons c cs)
  show ?case
  proof (cases "best_candidate f cs")
    case None
    then have "cs = []" using best_candidate_Some [of cs f] by auto
    with Cons.prems show ?thesis by simp
  next
    case (Some b')
    with Cons.IH have ih: "b' \<in> set cs" "\<forall>c \<in> set cs. f c \<le> f b'" by auto
    from Cons.prems Some have "b = (if f c < f b' then b' else c)" by (simp split: if_splits)
    with ih show ?thesis by (auto split: if_splits)
  qed
qed

lemma best_candidate_first:
  "best_candidate f cs = Some b \<Longrightarrow>
     \<exists>pre post. cs = pre @ b # post \<and> (\<forall>c \<in> set pre. f c < f b)"
proof (induction cs arbitrary: b)
  case Nil
  then show ?case by simp
next
  case (Cons c cs)
  show ?case
  proof (cases "best_candidate f cs")
    case None
    with Cons.prems have "b = c" by simp
    then have "c # cs = [] @ b # cs \<and> (\<forall>x \<in> set []. f x < f b)" by simp
    then show ?thesis by blast
  next
    case (Some b')
    show ?thesis
    proof (cases "f c < f b'")
      case True
      with Cons.prems Some have bb: "b = b'" by simp
      with Cons.IH Some obtain pre post where p: "cs = pre @ b # post" "\<forall>x \<in> set pre. f x < f b"
        by blast
      with True bb have "c # cs = (c # pre) @ b # post \<and> (\<forall>x \<in> set (c # pre). f x < f b)"
        by simp
      then show ?thesis by blast
    next
      case False
      with Cons.prems Some have "b = c" by simp
      then have "c # cs = [] @ b # cs \<and> (\<forall>x \<in> set []. f x < f b)" by simp
      then show ?thesis by blast
    qed
  qed
qed

lemma logged_simps: "fst (logged ev r) = fst r" "snd (logged ev r) = ev # snd r"
  by (simp_all add: logged_def)

lemma candidate_loop_low:
  assumes "\<forall>c \<in> set cs. score_candidate sim e c < 85"
  shows "candidate_loop sim e cs bt bs =
     (Inr (case best_candidate (score_candidate sim e) cs of
             None \<Rightarrow> (bt, bs)
           | Some b \<Rightarrow>
               if bs < score_candidate sim e b then (Some b, score_candidate sim e b)
               else (bt, bs)),
      map Score cs)"
  using assms
proof (induction cs arbitrary: bt bs)
  case Nil
  show ?case by simp
next
  case (Cons c cs)
  let ?f = "score_candidate sim e"
  from Cons.prems have lo: "\<not> 85 \<le> ?f c" and rest: "\<forall>c \<in> set cs. ?f c < 85"
    by auto
  note ih = Cons.IH [OF rest]
  show ?case
  proof (cases "best_candidate ?f cs")
    case None
    with lo show ?thesis by (simp add: ih logged_def)
  next
    case (Some b')
    with lo show ?thesis by (simp add: ih logged_def)
  qed
qed

lemma candidate_loop_high:
  assumes "\<forall>c \<in> set pre. score_candidate sim e c < 85" and "85 \<le> score_candidate sim e c"
  shows "candidate_loop sim e (pre @ c # post) bt bs = (Inl (uri c), map Score (pre @ [c]))"
  using assms
proof (induction pre arbitrary: bt bs)
  case Nil
  then show ?case by simp
next
  case (Cons d pre)
  then have lo: "\<not> 85 \<le> score_candidate sim e d"
    and ih: "\<And>bt bs. candidate_loop sim e (pre @ c # post) bt bs
        = (Inl (uri c), map Score (pre @ [c]))"
    by auto
  show ?case using lo by (simp add: ih logged_def)
qed
lemma find_append_first:
  "\<forall>x \<in> set pre. \<not> P x \<Longrightarrow> P c \<Longrightarrow> find P (pre @ c # post) = Some c"
  by (induction pre) auto

lemma find_none_all: "\<forall>x \<in> set cs. \<not> P x \<Longrightarrow> find P cs = None"
  by (induction cs) auto

lemma evaluate_spec:
  "(case candidate_loop sim e cs None 0 of
      (Inl u, evs) \<Rightarrow> (Some u, evs)
    | (Inr (bt, bs), evs) \<Rightarrow> (after_candidates e bt bs, evs))
   = (select_spec sim e cs, map Score (examined_spec sim e cs))"
proof (cases "\<exists>c \<in> set cs. 85 \<le> score_candidate sim e c")
  case True
  then obtain pre c post where cs: "cs = pre @ c # post"
    and hi: "85 \<le> score_candidate sim e c"
    and lo: "\<forall>x \<in> set pre. \<not> 85 \<le> score_candidate sim e x"
    using split_list_first_prop [of cs "\<lambda>c. 85 \<le> score_candidate sim e c"] by blast
  from lo have lo': "\<forall>x \<in> set pre. score_candidate sim e x < 85" by auto
  have f: "find (\<lambda>c. 85 \<le> score_candidate sim e c) cs = Some c"
    unfolding cs using lo hi by (rule find_append_first)
  have tw: "takeWhile (\<lambda>c. score_candidate sim e c < 85) cs = pre"
    unfolding cs using lo' hi by simp
  have dw: "dropWhile (\<lambda>c. score_candidate sim e c < 85) cs = c # post"
    unfolding cs using lo' hi by simp
  have ex: "examined_spec sim e cs = pre @ [c]"
    by (simp add: examined_spec_def tw dw)
  have "candidate_loop sim e cs None 0 = (Inl (uri c), map Score (pre @ [c]))"
    unfolding cs using lo' hi by (rule candidate_loop_high)
  then show ?thesis
    by (simp add: select_spec_def f ex)
next
  case False
  then have lo: "\<forall>c \<in> set cs. score_candidate sim e c < 85" by auto
  then have lo2: "\<forall>c \<in> set cs. \<not> 85 \<le> score_candidate sim e c" by auto
  have f: "find (\<lambda>c. 85 \<le> score_candidate sim e c) cs = None"
    using lo2 by (rule find_none_all)
  have tw: "takeWhile (\<lambda>c. score_candidate sim e c < 85) cs = cs"
    using lo by simp
  have dw: "dropWhile (\<lambda>c. score_candidate sim e c < 85) cs = []"
    using lo by simp
  have ex: "examined_spec sim e cs = cs"
    unfolding examined_spec_def tw dw by simp
  note cl = candidate_loop_low [OF lo, of None 0]
  show ?thesis
  proof (cases "best_candidate (score_candidate sim e) cs")
    case None
    then show ?thesis
      by (simp add: cl select_spec_def f ex after_candidates_def)
  next
    case (Some b)
    then show ?thesis
      by (simp add: cl select_spec_def f ex after_candidates_def)
  qed
qed

lemma select_spec_none:
  assumes "\<forall>c \<in> set cs. score_candidate sim e c < 55
      \<and> \<not> (is_exact_track_artist_match e c \<and> 50 \<le> score_candidate sim e c)"
  shows "select_spec sim e cs = None"
proof -
  from assms have "\<forall>c \<in> set cs. \<not> 85 \<le> score_candidate sim e c" by auto
  then have f: "find (\<lambda>c. 85 \<le> score_candidate sim e c) cs = None"
    by (rule find_none_all)
  show ?thesis
  proof (cases "best_candidate (score_candidate sim e) cs")
    case None
    then show ?thesis by (simp add: select_spec_def f)
  next
    case (Some b)
    then have "b \<in> set cs" using best_candidate_max by blast
    with assms have "score_candidate sim e b < 55"
      "\<not> (is_exact_track_artist_match e b \<and> 50 \<le> score_candidate sim e b)" by blast+
    with Some show ?thesis by (simp add: select_spec_def f)
  qed
qed

lemma query_loop_empty:
  "\<forall>q \<in> set qs. srch q = [] \<Longrightarrow> query_loop srch sim e qs bt bs = (None, map Search qs)"
  by (induction qs) (simp_all add: logged_def)

lemma query_loop_first:
  assumes "\<forall>p \<in> set pre. srch p = []" and "srch q \<noteq> []"
  shows "query_loop srch sim e (pre @ q # post) None 0 =
     (select_spec sim e (srch q),
      map Search (pre @ [q]) @ map Score (examined_spec sim e (srch q)))"
  using assms(1)
proof (induction pre)
  case Nil
  show ?case
    using assms(2) evaluate_spec [where cs = "srch q"] by (simp add: logged_def)
next
  case (Cons p pre)
  then show ?case by (simp add: logged_def)
qed

lemma scored_candidates_log:
  "scored_candidates (map Search qs @ map Score cs) = cs"
  by (induction qs) (simp_all add: scored_candidates_def comp_def)

lemma searched_queries_log:
  "searched_queries (map Search qs @ map Score cs) = qs"
proof -
  have "searched_queries (map Score cs) = []"
    by (induction cs) (simp_all add: searched_queries_def)
  moreover have "searched_queries (map Search qs @ evs) = qs @ searched_queries evs" for evs
    by (induction qs) (simp_all add: searched_queries_def)
  ultimately show ?thesis by simp
qed

text \<open>
  Claim C1: the searches issued are the queries up to and including the first one whose
  response has a candidate, and no later one, also when no candidate of that response is
  accepted, in which case nothing is found; when every response is empty, every query is
  issued and nothing is found.
\<close>

theorem cascade_stops_at_first_response:
  "(search_queries e = pre @ q # post \<and> (\<forall>p \<in> set pre. srch p = []) \<and> srch q \<noteq> []
      \<longrightarrow> searched_queries (snd (search_track_with_scoring srch sim e)) = pre @ [q]
        \<and> ((\<forall>c \<in> set (srch q). score_candidate sim e c < 55
               \<and> \<not> (is_exact_track_artist_match e c \<and> 50 \<le> score_candidate sim e c))
            \<longrightarrow> fst (search_track_with_scoring srch sim e) = None))
   \<and> ((\<forall>q \<in> set (search_queries e). srch q = [])
      \<longrightarrow> search_track_with_scoring srch sim e = (None, map Search (search_queries e)))"
proof (intro conjI impI)
  assume a: "search_queries e = pre @ q # post \<and> (\<forall>p \<in> set pre. srch p = []) \<and> srch q \<noteq> []"
  then have r: "search_track_with_scoring srch sim e =
     (select_spec sim e (srch q),
      map Search (pre @ [q]) @ map Score (examined_spec sim e (srch q)))"
    unfolding search_track_with_scoring_def using query_loop_first [of pre srch q]
    by simp
  show "searched_queries (snd (search_track_with_scoring srch sim e)) = pre @ [q]"
    unfolding r by (simp only: snd_conv searched_queries_log)
  show "fst (search_track_with_scoring srch sim e) = None"
    if "\<forall>c \<in> set (srch q). score_candidate sim e c < 55
               \<and> \<not> (is_exact_track_artist_match e c \<and> 50 \<le> score_candidate sim e c)"
    unfolding r using select_spec_none [OF that] by simp
next
  assume "\<forall>q \<in> set (search_queries e). srch q = []"
  then show "search_track_with_scoring srch sim e = (None, map Search (search_queries e))"
    unfolding search_track_with_scoring_def by (rule query_loop_empty)
qed

theorem cascade_stops_at_first_response_witness:
  "search_queries e_janet = [] @ hd (search_queries e_janet) # tl (search_queries e_janet)
   \<and> srch_poor_first (hd (search_queries e_janet)) = [t_other]
   \<and> score_candidate sim_zero e_janet t_other = - 10
   \<and> length (search_queries e_janet) = 3
   \<and> searched_queries (snd (search_track_with_scoring srch_poor_first sim_zero e_janet))
       = [hd (search_queries e_janet)]
   \<and> fst (search_track_with_scoring srch_poor_first sim_zero e_janet) = None
   \<and> search_track_with_scoring srch_nothing sim_zero e_janet
       = (None, map Search (search_queries e_janet))"
proof -
  let ?q = "hd (search_queries e_janet)"
  have h1: "search_queries e_janet = [] @ ?q # tl (search_queries e_janet)"
    by code_simp
  have h2: "\<forall>p \<in> set []. srch_poor_first p = []"
    by simp
  have h3: "srch_poor_first ?q \<noteq> []"
    by code_simp
  have h4: "\<forall>c \<in> set (srch_poor_first ?q).
         score_candidate sim_zero e_janet c < 55
         \<and> \<not> (is_exact_track_artist_match e_janet c \<and> 50 \<le> score_candidate sim_zero e_janet c)"
    by code_simp
  have h5: "\<forall>q \<in> set (search_queries e_janet). srch_nothing q = []"
    by (simp add: srch_nothing_def)
  have l: "length (search_queries e_janet) = 3"
    by code_simp
  note t1 = cascade_stops_at_first_response
    [of e_janet "[]" ?q "tl (search_queries e_janet)" srch_poor_first sim_zero]
  note t2 = cascade_stops_at_first_response
    [of e_janet "[]" ?q "tl (search_queries e_janet)" srch_nothing sim_zero]
  from t1 h1 h2 h3 h4
  have a: "searched_queries (snd (search_track_with_scoring srch_poor_first sim_zero e_janet))
       = [] @ [?q]
     \<and> fst (search_track_with_scoring srch_poor_first sim_zero e_janet) = None"
    by blast
  from t2 h5
  have b: "search_track_with_scoring srch_nothing sim_zero e_janet
       = (None, map Search (search_queries e_janet))"
    by blast
  have c: "srch_poor_first ?q = [t_other]"
    by code_simp
  have v: "score_candidate sim_zero e_janet t_other = - 10"
    by code_simp
  from a b h1 c v l show ?thesis
    by (simp only: append_Nil simp_thms)
qed

text \<open>
  Claim C4: within the first response that has candidates, the result is that of
  \<open>select_spec\<close>: the URI of the first candidate that scores 85 or more, with no candidate
  after it scored; otherwise, all candidates scored, the URI of the best one when it scores
  55 or more, or when it is an exact track and artist match and scores 50 or more, and
  nothing else.
\<close>

theorem selector_decision:
  assumes "search_queries e = pre @ q # post"
    and "\<forall>p \<in> set pre. srch p = []"
    and "srch q \<noteq> []"
  shows "fst (search_track_with_scoring srch sim e) = select_spec sim e (srch q)
    \<and> scored_candidates (snd (search_track_with_scoring srch sim e))
        = examined_spec sim e (srch q)"
proof -
  have r: "search_track_with_scoring srch sim e =
     (select_spec sim e (srch q),
      map Search (pre @ [q]) @ map Score (examined_spec sim e (srch q)))"
    unfolding search_track_with_scoring_def assms(1)
    using assms(2,3) by (rule query_loop_first)
  show ?thesis
    unfolding r by (simp only: fst_conv snd_conv scored_candidates_log)
qed
theorem selector_decision_witness:
  "search_queries e_janet
     = [hd (search_queries e_janet)] @ hd (tl (search_queries e_janet))
         # tl (tl (search_queries e_janet))
   \<and> srch_second (hd (search_queries e_janet)) = []
   \<and> srch_second (hd (tl (search_queries e_janet))) = [t_other, t_janet, t_janet]
   \<and> fst (search_track_with_scoring srch_second sim_zero e_janet) = Some (uri t_janet)
   \<and> scored_candidates (snd (search_track_with_scoring srch_second sim_zero e_janet))
       = [t_other, t_janet, t_janet]"
proof -
  let ?q = "hd (tl (search_queries e_janet))"
  have h1: "search_queries e_janet
     = [hd (search_queries e_janet)] @ ?q # tl (tl (search_queries e_janet))"
    by code_simp
  have h2: "\<forall>p \<in> set [hd (search_queries e_janet)]. srch_second p = []"
    by code_simp
  have h3: "srch_second ?q \<noteq> []"
    by code_simp
  have c: "srch_second ?q = [t_other, t_janet, t_janet]"
    by code_simp
  have v1: "select_spec sim_zero e_janet [t_other, t_janet, t_janet] = Some (uri t_janet)"
    by code_simp
  have v2: "examined_spec sim_zero e_janet [t_other, t_janet, t_janet]
      = [t_other, t_janet, t_janet]"
    by code_simp
  have h2': "srch_second (hd (search_queries e_janet)) = []"
    using h2 by simp
  from selector_decision [OF h1 h2 h3, of sim_zero] h1 h2' show ?thesis
    unfolding c v1 v2 by blast
qed

section \<open>The run\<close>

lemma candidate_loop_lookup: "list_all is_lookup (snd (candidate_loop sim e cs bt bs))"
  by (induction cs arbitrary: bt bs) (simp_all add: logged_def)

lemma query_loop_lookup: "list_all is_lookup (snd (query_loop srch sim e qs bt bs))"
proof (induction qs)
  case Nil
  show ?case by simp
next
  case (Cons q qs)
  show ?case
  proof (cases "srch q = []")
    case True
    with Cons show ?thesis by (simp add: logged_def)
  next
    case False
    obtain r evs where c: "candidate_loop sim e (srch q) bt bs = (r, evs)"
      by (cases "candidate_loop sim e (srch q) bt bs")
    have "list_all is_lookup evs"
      using candidate_loop_lookup [of sim e "srch q" bt bs] by (simp add: c)
    with False c show ?thesis
      by (cases r) (auto simp: logged_def split: prod.splits)
  qed
qed

lemma search_lookup: "list_all is_lookup (snd (search_track_with_scoring srch sim e))"
  unfolding search_track_with_scoring_def by (rule query_loop_lookup)

lemma validate_unresolved:
  assumes "\<forall>e \<in> set es. fst (search_track_with_scoring (b_search be) sim e) = None
             \<or> fst (search_track_with_scoring (b_search be) sim e) = Some []"
  shows "fst (validate be sim es found) = Inr found
     \<and> list_all is_lookup (snd (validate be sim es found))"
  using assms
proof (induction es)
  case Nil
  show ?case by simp
next
  case (Cons e es)
  obtain r evs where s: "search_track_with_scoring (b_search be) sim e = (r, evs)"
    by (cases "search_track_with_scoring (b_search be) sim e")
  from Cons.prems s have r: "r = None \<or> r = Some []" by simp
  have l: "list_all is_lookup evs"
    using search_lookup [of "b_search be" sim e] by (simp add: s)
  from Cons have ih: "fst (validate be sim es found) = Inr found"
    "list_all is_lookup (snd (validate be sim es found))" by simp_all
  obtain res evs' where v: "validate be sim es found = (res, evs')"
    by (cases "validate be sim es found")
  from r l ih show ?case
    by (auto simp: s v)
qed

lemma lookup_not_mutation: "is_lookup ev \<Longrightarrow> \<not> is_mutation ev"
  by (cases ev) simp_all

text \<open>
  Claim C9: when no entry resolves to a URI, the run exits with status 1 and its log holds
  searches and scorings only: no playlist is looked up or created, nothing is added or
  removed.
\<close>

theorem abort_before_any_mutation:
  assumes "\<forall>e \<in> set entries. fst (search_track_with_scoring (b_search be) sim e) = None
             \<or> fst (search_track_with_scoring (b_search be) sim e) = Some []"
  shows "fst (main be sim overwrite playlist_name entries) = SysExit 1
     \<and> list_all is_lookup (snd (main be sim overwrite playlist_name entries))
     \<and> \<not> list_ex is_mutation (snd (main be sim overwrite playlist_name entries))"
proof -
  obtain res evs where v: "validate be sim entries [] = (res, evs)"
    by (cases "validate be sim entries []")
  from validate_unresolved [OF assms, of "[]"] v
  have res: "res = Inr []" and l: "list_all is_lookup evs" by simp_all
  have m: "main be sim overwrite playlist_name entries = (SysExit 1, evs)"
    by (simp add: main_def v res)
  have "\<not> list_ex is_mutation evs"
    using l lookup_not_mutation by (auto simp: list_all_iff list_ex_iff)
  with l show ?thesis by (simp add: m)
qed

theorem abort_before_any_mutation_witness:
  "fst (search_track_with_scoring (b_search be_nothing) sim_zero e_janet) = None
   \<and> fst (search_track_with_scoring (b_search be_nothing) sim_zero e_genesis) = None
   \<and> fst (main be_nothing sim_zero True ''mix'' [e_janet, e_genesis]) = SysExit 1
   \<and> \<not> list_ex is_mutation (snd (main be_nothing sim_zero True ''mix'' [e_janet, e_genesis]))"
proof -
  have h: "\<forall>e \<in> set [e_janet, e_genesis].
       fst (search_track_with_scoring (b_search be_nothing) sim_zero e) = None
       \<or> fst (search_track_with_scoring (b_search be_nothing) sim_zero e) = Some []"
    by code_simp
  have n: "fst (search_track_with_scoring (b_search be_nothing) sim_zero e_janet) = None"
    "fst (search_track_with_scoring (b_search be_nothing) sim_zero e_genesis) = None"
    by code_simp+
  from abort_before_any_mutation [OF h, of True "''mix''"] n show ?thesis by blast
qed
lemma concat_chunks:
  "concat (map (\<lambda>k. take n (drop (k * n) xs)) [0 ..< m]) = take (m * n) xs"
proof (induction m)
  case 0
  show ?case by simp
next
  case (Suc m)
  have "take (m * n + n) xs = take (m * n) xs @ take n (drop (m * n) xs)"
    by (rule take_add)
  with Suc show ?case by (simp add: add.commute)
qed

lemma chunks_cover: "0 < n \<Longrightarrow> l \<le> (l + n - 1) div n * n" for l n :: nat
proof -
  assume n: "0 < n"
  have "(l + n - 1) div n * n + (l + n - 1) mod n = l + n - 1"
    by simp
  moreover have "(l + n - 1) mod n \<le> n - 1"
    using n by (simp add: less_Suc_eq_le [symmetric])
  ultimately show ?thesis using n by linarith
qed

lemma chunked_concat:
  assumes "0 < n"
  shows "\<exists>bs. chunked xs n = Inr bs \<and> concat bs = xs"
proof -
  let ?bs = "map (\<lambda>k. take n (drop (k * n) xs)) [0 ..< (length xs + n - 1) div n]"
  have "chunked xs n = Inr ?bs"
    using assms by (simp add: chunked_def)
  moreover have "concat ?bs = xs"
    using chunks_cover [OF assms, of "length xs"] by (simp add: concat_chunks)
  ultimately show ?thesis by blast
qed

lemma removed_uris_batches:
  "removed_uris (map (RemoveItems p) rs @ map (AddItems p) as) = concat rs"
proof -
  have "removed_uris (map (AddItems p) as) = []"
    by (induction as) (simp_all add: removed_uris_def)
  moreover have "removed_uris (map (RemoveItems p) rs @ evs) = concat rs @ removed_uris evs" for evs
    by (induction rs) (simp_all add: removed_uris_def)
  ultimately show ?thesis by simp
qed

lemma added_uris_batches:
  "added_uris (map (RemoveItems p) rs @ map (AddItems p) as) = concat as"
proof -
  have "added_uris (map (AddItems p) as) = concat as"
    by (induction as) (simp_all add: added_uris_def)
  moreover have "added_uris (map (RemoveItems p) rs @ evs) = added_uris evs" for evs
    by (induction rs) (simp_all add: added_uris_def)
  ultimately show ?thesis by simp
qed

lemma reconcile_batches:
  "\<exists>rs as. reconcile p overwrite found existing
        = (Done, map (RemoveItems p) rs @ map (AddItems p) as)
     \<and> concat rs = (if overwrite then existing else [])
     \<and> concat as = uris_to_add overwrite found existing"
proof -
  obtain as where as: "chunked (uris_to_add overwrite found existing) ADD_BATCH_SIZE = Inr as"
    "concat as = uris_to_add overwrite found existing"
    using chunked_concat [of ADD_BATCH_SIZE] by (auto simp: ADD_BATCH_SIZE_def)
  obtain rs where rs: "chunked existing REMOVE_BATCH_SIZE = Inr rs" "concat rs = existing"
    using chunked_concat [of REMOVE_BATCH_SIZE] by (auto simp: REMOVE_BATCH_SIZE_def)
  show ?thesis
  proof (cases "overwrite \<and> existing \<noteq> []")
    case True
    have "reconcile p overwrite found existing
        = (Done, map (RemoveItems p) rs @ map (AddItems p) as)"
      using True rs(1) as(1) by (simp add: reconcile_def)
    with True rs as show ?thesis by auto
  next
    case False
    have "reconcile p overwrite found existing
        = (Done, map (RemoveItems p) [] @ map (AddItems p) as)"
      using False as(1) by (auto simp: reconcile_def)
    moreover have "concat [] = (if overwrite then existing else [])"
      using False by auto
    ultimately show ?thesis using as by blast
  qed
qed

text \<open>
  Claim C6, amended: in append mode nothing is removed and the URIs added are the found
  URIs that the playlist does not hold, in their order and with every repetition kept; a
  second run against a playlist that holds these additions too adds nothing.
\<close>

theorem append_mode_adds_missing:
  assumes "set existing' = set existing \<union> set (added_uris (snd (reconcile p False found existing)))"
  shows "fst (reconcile p False found existing) = Done
     \<and> removed_uris (snd (reconcile p False found existing)) = []
     \<and> added_uris (snd (reconcile p False found existing))
         = filter (\<lambda>u. u \<notin> set existing) found
     \<and> added_uris (snd (reconcile p False found existing')) = []"
proof -
  have r: "fst (reconcile p False found ex) = Done
      \<and> removed_uris (snd (reconcile p False found ex)) = []
      \<and> added_uris (snd (reconcile p False found ex)) = filter (\<lambda>u. u \<notin> set ex) found" for ex
  proof -
    obtain rs as where "reconcile p False found ex
        = (Done, map (RemoveItems p) rs @ map (AddItems p) as)"
      "concat rs = []" "concat as = uris_to_add False found ex"
      using reconcile_batches [of p False found ex] by auto
    then show ?thesis
      by (simp add: removed_uris_batches added_uris_batches uris_to_add_def)
  qed
  from assms have "set existing' = set existing \<union> set (filter (\<lambda>u. u \<notin> set existing) found)"
    by (simp add: r)
  then have "set found \<subseteq> set existing'" by auto
  then have "filter (\<lambda>u. u \<notin> set existing') found = []"
    by (auto simp: filter_empty_conv)
  then show ?thesis by (simp add: r)
qed

text \<open>
  Claim C6 as stated fails: a URI found twice and not in the playlist is added twice.
\<close>

theorem append_mode_counterexample:
  "added_uris (snd (reconcile ''playlist:1'' False [''u1'', ''u1''] [])) = [''u1'', ''u1'']
   \<and> added_uris (snd (reconcile ''playlist:1'' False [''u1'', ''u1''] [])) \<noteq> [''u1'']"
  by code_simp

theorem append_mode_witness:
  "set [''u1'', ''u2'', ''u3'']
     = set [''u1''] \<union> set (added_uris (snd (reconcile ''playlist:1'' False
         [''u2'', ''u3'', ''u2'', ''u1''] [''u1''])))
   \<and> added_uris (snd (reconcile ''playlist:1'' False [''u2'', ''u3'', ''u2'', ''u1''] [''u1'']))
       = [''u2'', ''u3'', ''u2'']
   \<and> added_uris (snd (reconcile ''playlist:1'' False [''u2'', ''u3'', ''u2'', ''u1'']
         [''u1'', ''u2'', ''u3''])) = []"
proof -
  have h: "set [''u1'', ''u2'', ''u3'']
     = set [''u1''] \<union> set (added_uris (snd (reconcile ''playlist:1'' False
         [''u2'', ''u3'', ''u2'', ''u1''] [''u1''])))"
    by code_simp
  have v: "filter (\<lambda>u. u \<notin> set [''u1'']) [''u2'', ''u3'', ''u2'', ''u1''] = [''u2'', ''u3'', ''u2'']"
    by code_simp
  from append_mode_adds_missing [OF h] v h show ?thesis by simp
qed

text \<open>
  Claim C7: in overwrite mode the batches removed make up the whole list of existing URIs,
  the batches added make up the whole list of found URIs, whether or not the playlist held
  them, and every removal comes before every addition.
\<close>

theorem overwrite_mode_clears_then_adds_all:
  "\<exists>rs as. reconcile p True found existing
        = (Done, map (RemoveItems p) rs @ map (AddItems p) as)
     \<and> concat rs = existing \<and> concat as = found"
  using reconcile_batches [of p True found existing] by (simp add: uris_to_add_def)

end
